theory Spec2Isabelle
  imports Main
begin

section \<open>Flow-run utilities: data model\<close>

text \<open>
  The module under verification is the flow-run utility file of the web client
  (\<^verbatim>\<open>flowRunUtils\<close>): the status-to-icon tables, \<^verbatim>\<open>findFailedStep\<close>,
  \<^verbatim>\<open>findLoopsState\<close> and \<^verbatim>\<open>extractStepOutput\<close>.
  The types it imports from the shared package are not part of the sources at hand;
  they are declared here as far as the functions inspect them.
\<close>

subsection \<open>Status enumerations\<close>

text \<open>
  \<^verbatim>\<open>StepOutputStatus\<close> and \<^verbatim>\<open>FlowRunStatus\<close>, with the members the two
  \<^verbatim>\<open>switch\<close> statements list. Where a member name occurs in both enumerations the
  run-level one carries the prefix \<open>RUN_\<close>.
\<close>

datatype StepOutputStatus = RUNNING | PAUSED | STOPPED | SUCCEEDED | FAILED

datatype FlowRunStatus =
    RUN_RUNNING | RUN_SUCCEEDED | RUN_STOPPED | RUN_FAILED | RUN_PAUSED
  | QUOTA_EXCEEDED | INTERNAL_ERROR | TIMEOUT

text \<open>The icon components of the two tables; only their identity matters.\<close>

datatype icon = Timer | CircleCheck | PauseCircleIcon | CircleX | Check | PauseIcon | X

text \<open>
  The result object \<^verbatim>\<open>{ variant, Icon }\<close>. The variant is a string literal type in
  the source (\<^verbatim>\<open>'default' | 'success' | 'error'\<close>) and stays a string here.
\<close>

record status_icon =
  variant :: string
  Icon :: icon

fun getStatusIconForStep :: "StepOutputStatus \<Rightarrow> status_icon" where
  "getStatusIconForStep RUNNING = \<lparr>variant = ''default'', Icon = Timer\<rparr>"
| "getStatusIconForStep PAUSED = \<lparr>variant = ''default'', Icon = PauseCircleIcon\<rparr>"
| "getStatusIconForStep STOPPED = \<lparr>variant = ''success'', Icon = CircleCheck\<rparr>"
| "getStatusIconForStep SUCCEEDED = \<lparr>variant = ''success'', Icon = CircleCheck\<rparr>"
| "getStatusIconForStep FAILED = \<lparr>variant = ''error'', Icon = CircleX\<rparr>"

fun getStatusIcon :: "FlowRunStatus \<Rightarrow> status_icon" where
  "getStatusIcon RUN_RUNNING = \<lparr>variant = ''default'', Icon = Timer\<rparr>"
| "getStatusIcon RUN_SUCCEEDED = \<lparr>variant = ''success'', Icon = Check\<rparr>"
| "getStatusIcon RUN_STOPPED = \<lparr>variant = ''success'', Icon = Check\<rparr>"
| "getStatusIcon RUN_FAILED = \<lparr>variant = ''error'', Icon = X\<rparr>"
| "getStatusIcon RUN_PAUSED = \<lparr>variant = ''default'', Icon = PauseIcon\<rparr>"
| "getStatusIcon QUOTA_EXCEEDED = \<lparr>variant = ''error'', Icon = X\<rparr>"
| "getStatusIcon INTERNAL_ERROR = \<lparr>variant = ''error'', Icon = X\<rparr>"
| "getStatusIcon TIMEOUT = \<lparr>variant = ''error'', Icon = X\<rparr>"

subsection \<open>Step outputs and runs\<close>

text \<open>
  \<^verbatim>\<open>StepOutput\<close> is a union discriminated by its \<^verbatim>\<open>type\<close> field: a record of
  type \<^verbatim>\<open>LOOP_ON_ITEMS\<close> carries an optional \<^verbatim>\<open>LoopStepResult\<close>, whose
  \<^verbatim>\<open>iterations\<close> is an array of objects from step names to step outputs; a record
  of any other type carries an opaque output, of which the code only tests the
  truthiness (\<open>output_truthy\<close>). An opaque output is taken to have no
  \<^verbatim>\<open>iterations\<close> property. The field \<^verbatim>\<open>output\<close> of a loop record is
  \<open>loop_output\<close> here. Objects keyed by step name are association lists, in
  the order \<^verbatim>\<open>Object.entries\<close> yields them; \<open>map_of\<close> is the property read
  (step names are taken not to collide with the properties every object inherits).
\<close>

datatype other_type = CODE | PIECE | BRANCH | EMPTY | PIECE_TRIGGER

datatype StepOutput =
    LoopStepOutput (status: StepOutputStatus)
      (loop_output: "(string \<times> StepOutput) list list option")
  | GenericStepOutput (gtype: other_type) (status: StepOutputStatus) (output_truthy: bool)

type_synonym step_outputs = "(string \<times> StepOutput) list"

text \<open>\<^verbatim>\<open>step.type === ActionType.LOOP_ON_ITEMS\<close> on a step output.\<close>

fun is_loop_output :: "StepOutput \<Rightarrow> bool" where
  "is_loop_output (LoopStepOutput st out) = True"
| "is_loop_output (GenericStepOutput t st tr) = False"

text \<open>
  A run; \<^verbatim>\<open>run.steps\<close> may be missing on a run that was fetched without its
  steps, which is what the guard in \<^verbatim>\<open>findLoopsState\<close> tests.
\<close>

record FlowRun =
  steps :: "step_outputs option"

datatype js_error = TypeError

section \<open>Failure finder\<close>

text \<open>Size bounds for the nested recursion of \<^verbatim>\<open>findFailedStepInLoop\<close>.\<close>

lemma size_loop_output:
  "size_list (size_list (size_prod (\<lambda>_. 0) size)) its < size (LoopStepOutput st (Some its))"
  by simp

lemma size_entry_le:
  assumes "(n, s) \<in> set iteration" and "iteration \<in> set iterations"
  shows "size s \<le> size_list (size_list (size_prod (\<lambda>_. 0) size)) iterations"
proof -
  have "size s \<le> size_prod (\<lambda>_. 0) size (n, s)" by simp
  also have "\<dots> \<le> size_list (size_prod (\<lambda>_. 0) size) iteration"
    using assms(1) by (rule size_list_estimation') simp
  also have "\<dots> \<le> size_list (size_list (size_prod (\<lambda>_. 0) size)) iterations"
    using assms(2) by (rule size_list_estimation') simp
  finally show ?thesis .
qed

text \<open>
  \<^verbatim>\<open>findFailedStepInLoop\<close>: \<^verbatim>\<open>Array.prototype.reduce\<close> is \<open>foldl\<close>; the
  outer one runs over the iterations, the inner one over the entries of one
  iteration. \<^verbatim>\<open>isNil(res)\<close> is \<open>res = None\<close>, and \<^verbatim>\<open>res ?? x\<close> keeps a
  non-null \<open>res\<close>. The test of \<^verbatim>\<open>step.type\<close> narrows the record to a loop
  output, so the recursive call receives a \<^verbatim>\<open>LoopStepResult\<close> and reading its
  \<^verbatim>\<open>iterations\<close> cannot fail.
\<close>

function findFailedStepInLoop :: "step_outputs list \<Rightarrow> string option" where
  "findFailedStepInLoop iterations =
     foldl (\<lambda>res iteration.
        let failedStepWithinLoop =
              foldl (\<lambda>res (stepName, step).
                 if status step = FAILED then Some stepName
                 else if is_loop_output step \<and> loop_output step \<noteq> None \<and> res = None
                   then findFailedStepInLoop (the (loop_output step))
                 else res) None iteration
        in (case res of Some r \<Rightarrow> Some r | None \<Rightarrow> failedStepWithinLoop))
       None iterations"
  by pat_completeness auto
termination
proof (relation "measure (size_list (size_list (size_prod (\<lambda>_. 0) size)))", goal_cases)
  case 1
  show ?case by simp
next
  case (2 iterations res iteration res' entry stepName step)
  then obtain st its where step: "step = LoopStepOutput st (Some its)"
    by (cases step) auto
  from 2 have "size step \<le> size_list (size_list (size_prod (\<lambda>_. 0) size)) iterations"
    by (auto intro: size_entry_le)
  with size_loop_output [of its st] show ?case
    by (simp add: step)
qed

declare findFailedStepInLoop.simps [simp del]

text \<open>
  \<^verbatim>\<open>findFailedStep\<close>: \<^verbatim>\<open>Object.entries(run.steps)\<close> raises a TypeError when
  \<^verbatim>\<open>run.steps\<close> is undefined; otherwise the same reduction as inside one iteration.
\<close>

definition findFailedStep :: "FlowRun \<Rightarrow> js_error + string option" where
  "findFailedStep run =
     (case steps run of
        None \<Rightarrow> Inl TypeError
      | Some entries \<Rightarrow>
          Inr (foldl (\<lambda>res (stepName, step).
                 if status step = FAILED then Some stepName
                 else if is_loop_output step \<and> loop_output step \<noteq> None \<and> res = None
                   then findFailedStepInLoop (the (loop_output step))
                 else res) None entries))"

section \<open>Flow tree and the shared flow helper\<close>

text \<open>
  A flow node: the trigger and the non-loop actions have a name and an optional
  \<^verbatim>\<open>nextAction\<close>; a \<^verbatim>\<open>LoopOnItemsAction\<close> also owns \<^verbatim>\<open>firstLoopAction\<close>, the
  head of its body.
\<close>

datatype Step =
    LoopOnItemsAction (name: string) (firstLoopAction: "Step option") (nextAction: "Step option")
  | OtherStep (name: string) (otype: other_type) (nextAction: "Step option")

text \<open>\<^verbatim>\<open>s.type === ActionType.LOOP_ON_ITEMS\<close> on a flow node.\<close>

fun is_loop :: "Step \<Rightarrow> bool" where
  "is_loop (LoopOnItemsAction n body nxt) = True"
| "is_loop (OtherStep n t nxt) = False"

record FlowVersion =
  trigger :: Step

text \<open>
  Modelled from the spec: \<^verbatim>\<open>flowHelper.getAllSteps\<close> (shared package, not among
  the sources). It flattens the tree below a node: the node, the nodes of its loop
  body when it is a loop, then the nodes of its successor chain.
\<close>

fun getAllSteps :: "Step \<Rightarrow> Step list" where
  "getAllSteps (OtherStep n t nxt) =
     OtherStep n t nxt # (case nxt of None \<Rightarrow> [] | Some s \<Rightarrow> getAllSteps s)"
| "getAllSteps (LoopOnItemsAction n body nxt) =
     LoopOnItemsAction n body nxt
       # (case body of None \<Rightarrow> [] | Some b \<Rightarrow> getAllSteps b)
       @ (case nxt of None \<Rightarrow> [] | Some s \<Rightarrow> getAllSteps s)"

text \<open>
  Modelled from the spec: \<^verbatim>\<open>flowHelper.isChildOf\<close> (shared package, not among the
  sources), the structural descendant relation of the flow tree: the named step lies
  in the body of the given loop, at any depth.
\<close>

fun isChildOf :: "Step \<Rightarrow> string \<Rightarrow> bool" where
  "isChildOf (LoopOnItemsAction n body nxt) childName =
     (case body of None \<Rightarrow> False | Some b \<Rightarrow> childName \<in> set (map name (getAllSteps b)))"
| "isChildOf (OtherStep n t nxt) childName = False"

text \<open>
  Modelled from the spec: \<^verbatim>\<open>flowHelper.findPathToStep\<close> (shared package, not among
  the sources). A structural search from a node along the successor chain and into
  loop bodies; the result is the list of loop ancestors of the target in
  root-to-target order, \<open>Some []\<close> for a target outside every loop and \<open>None\<close>
  (undefined) for a target that is nowhere in the tree.
\<close>

fun findPathToStep :: "Step \<Rightarrow> string \<Rightarrow> Step list option" where
  "findPathToStep (OtherStep n t nxt) targetStepName =
     (if n = targetStepName then Some []
      else (case nxt of None \<Rightarrow> None | Some s \<Rightarrow> findPathToStep s targetStepName))"
| "findPathToStep (LoopOnItemsAction n body nxt) targetStepName =
     (if n = targetStepName then Some []
      else (case (case body of None \<Rightarrow> None | Some b \<Rightarrow> findPathToStep b targetStepName) of
              Some p \<Rightarrow> Some (LoopOnItemsAction n body nxt # p)
            | None \<Rightarrow> (case nxt of None \<Rightarrow> None | Some s \<Rightarrow> findPathToStep s targetStepName)))"

section \<open>Loop display state\<close>

text \<open>\<^verbatim>\<open>Number.MAX_SAFE_INTEGER\<close>, that is \<open>2^53 - 1\<close>.\<close>

definition MAX_SAFE_INTEGER :: int where
  "MAX_SAFE_INTEGER = 9007199254740991"

text \<open>
  \<^verbatim>\<open>findLoopsState\<close>. The loop display state is an object from loop names to
  numbers, a map here; the spread \<^verbatim>\<open>{...res, [step.name]: v}\<close> is a map update.
  \<^verbatim>\<open>failedStep && isChildOf(step, failedStep)\<close> is false for \<^verbatim>\<open>null\<close> and for
  the empty string.
\<close>

definition findLoopsState ::
  "FlowVersion \<Rightarrow> FlowRun \<Rightarrow> (string \<rightharpoonup> int) \<Rightarrow> js_error + (string \<rightharpoonup> int)" where
  "findLoopsState flowVersion run currentLoopsState =
     (let loops = filter is_loop (getAllSteps (trigger flowVersion)) in
      case (if steps run \<noteq> None then findFailedStep run else Inr None) of
        Inl e \<Rightarrow> Inl e
      | Inr failedStep \<Rightarrow>
          Inr (foldl (\<lambda>res step.
                 let isFailedStepParent =
                       (case failedStep of
                          None \<Rightarrow> False
                        | Some f \<Rightarrow> f \<noteq> [] \<and> isChildOf step f)
                 in res(name step \<mapsto>
                      (if isFailedStepParent then MAX_SAFE_INTEGER
                       else (case currentLoopsState (name step) of
                               Some i \<Rightarrow> i
                             | None \<Rightarrow> 0))))
               currentLoopsState loops))"

section \<open>Output locator\<close>

text \<open>
  \<^verbatim>\<open>iterations[loopIndexes[name]]\<close>: reading an array at a number that is not one
  of its indices, or at \<^verbatim>\<open>undefined\<close>, yields \<^verbatim>\<open>undefined\<close>. An iteration
  snapshot is an object and so always truthy.
\<close>

definition iteration_at :: "'a list \<Rightarrow> int option \<Rightarrow> 'a option" where
  "iteration_at iterations i =
     (case i of
        None \<Rightarrow> None
      | Some k \<Rightarrow> if 0 \<le> k \<and> k < int (length iterations) then Some (iterations ! nat k) else None)"

text \<open>
  One pass through the body of the \<^verbatim>\<open>while\<close> loop of \<^verbatim>\<open>getLoopChildStepOutput\<close>,
  giving the new \<^verbatim>\<open>childOutput\<close>. The record is cast to a loop output without a
  test of its type: on a record of another type whose output is truthy,
  \<^verbatim>\<open>childOutput.output.iterations\<close> is undefined and indexing it raises a TypeError.
\<close>

definition loop_body ::
  "Step list \<Rightarrow> (string \<rightharpoonup> int) \<Rightarrow> string \<Rightarrow> nat \<Rightarrow> StepOutput option
     \<Rightarrow> js_error + StepOutput option" where
  "loop_body parents loopIndexes childName index childOutput =
     (let currentParentName = name (parents ! index) in
      case childOutput of
        None \<Rightarrow> Inr childOutput
      | Some (GenericStepOutput t st truthy) \<Rightarrow>
          if truthy then Inl TypeError else Inr childOutput
      | Some (LoopStepOutput st None) \<Rightarrow> Inr childOutput
      | Some (LoopStepOutput st (Some iterations)) \<Rightarrow>
          (case iteration_at iterations (loopIndexes currentParentName) of
             None \<Rightarrow> Inr childOutput
           | Some snapshot \<Rightarrow>
               let stepName = (if index + 1 < length parents
                               then name (parents ! (index + 1)) else childName)
               in Inr (map_of snapshot stepName)))"

function while_loop ::
  "Step list \<Rightarrow> (string \<rightharpoonup> int) \<Rightarrow> string \<Rightarrow> nat \<Rightarrow> StepOutput option
     \<Rightarrow> js_error + StepOutput option" where
  "while_loop parents loopIndexes childName index childOutput =
     (if index < length parents then
        (case loop_body parents loopIndexes childName index childOutput of
           Inl e \<Rightarrow> Inl e
         | Inr childOutput' \<Rightarrow> while_loop parents loopIndexes childName (index + 1) childOutput')
      else Inr childOutput)"
  by pat_completeness auto
termination
  by (relation "measure (\<lambda>(parents, loopIndexes, childName, index, childOutput).
        length parents - index)") auto

declare while_loop.simps [simp del]

definition getLoopChildStepOutput ::
  "Step list \<Rightarrow> (string \<rightharpoonup> int) \<Rightarrow> string \<Rightarrow> step_outputs
     \<Rightarrow> js_error + StepOutput option" where
  "getLoopChildStepOutput parents loopIndexes childName runOutput =
     (if length parents = 0 then Inr None
      else while_loop parents loopIndexes childName 0 (map_of runOutput (name (parents ! 0))))"

definition extractStepOutput ::
  "string \<Rightarrow> (string \<rightharpoonup> int) \<Rightarrow> step_outputs \<Rightarrow> Step \<Rightarrow> js_error + StepOutput option" where
  "extractStepOutput stepName loopIndexes outputs trig =
     (case map_of outputs stepName of
        Some stepOutput \<Rightarrow> Inr (Some stepOutput)
      | None \<Rightarrow>
          (case findPathToStep trig stepName of
             Some parents \<Rightarrow>
               getLoopChildStepOutput (filter is_loop parents) loopIndexes stepName outputs
           | None \<Rightarrow> Inr None))"

section \<open>Reference notions for the properties\<close>

text \<open>
  The snapshot addressed by a chain of loop names: from a mapping \<open>m\<close>, read the
  record of the first loop, take its iteration at the index the caller supplies for
  that loop, and go on from that snapshot with the remaining loops. It is \<open>None\<close>
  as soon as a loop record, its output or the addressed iteration is missing.
\<close>

fun snapshot_at :: "string list \<Rightarrow> (string \<rightharpoonup> int) \<Rightarrow> step_outputs \<Rightarrow> step_outputs option" where
  "snapshot_at [] loopIndexes m = Some m"
| "snapshot_at (l # ls) loopIndexes m =
     (case map_of m l of
        Some (LoopStepOutput st (Some iterations)) \<Rightarrow>
          (case iteration_at iterations (loopIndexes l) of
             Some snapshot \<Rightarrow> snapshot_at ls loopIndexes snapshot
           | None \<Rightarrow> None)
      | _ \<Rightarrow> None)"

text \<open>
  Every entry recorded in a list of snapshots, at any nesting depth: the entries of
  each snapshot, each followed by the entries inside its iterations when it is a
  loop output. The entries reachable in a run are \<open>all_records [entries]\<close>.
\<close>

function all_records :: "step_outputs list \<Rightarrow> (string \<times> StepOutput) list" where
  "all_records iterations =
     concat (map (\<lambda>iteration.
       concat (map (\<lambda>(stepName, step).
         (stepName, step)
           # (if is_loop_output step \<and> loop_output step \<noteq> None
              then all_records (the (loop_output step)) else [])) iteration)) iterations)"
  by pat_completeness auto
termination
proof (relation "measure (size_list (size_list (size_prod (\<lambda>_. 0) size)))", goal_cases)
  case 1
  show ?case by simp
next
  case (2 iterations iteration entry stepName step)
  then obtain st its where step: "step = LoopStepOutput st (Some its)"
    by (cases step) auto
  from 2 have "size step \<le> size_list (size_list (size_prod (\<lambda>_. 0) size)) iterations"
    by (auto intro: size_entry_le)
  with size_loop_output [of its st] show ?case
    by (simp add: step)
qed

declare all_records.simps [simp del]

text \<open>The first defined value of a list of optional values.\<close>

fun first_some :: "'a option list \<Rightarrow> 'a option" where
  "first_some [] = None"
| "first_some (None # xs) = first_some xs"
| "first_some (Some x # xs) = Some x"

text \<open>The name of the last entry of a mapping whose own status is FAILED.\<close>

definition last_failed :: "step_outputs \<Rightarrow> string option" where
  "last_failed entries =
     (case filter (\<lambda>(stepName, step). status step = FAILED) entries of
        [] \<Rightarrow> None
      | e # es \<Rightarrow> Some (fst (last (e # es))))"

text \<open>The search inside one entry: the failed step of its iterations when it is a
  loop output with a result, nothing otherwise.\<close>

definition loop_search :: "string \<times> StepOutput \<Rightarrow> string option" where
  "loop_search entry =
     (if is_loop_output (snd entry) \<and> loop_output (snd entry) \<noteq> None
      then findFailedStepInLoop (the (loop_output (snd entry))) else None)"

text \<open>The result of one level: the last directly failed entry if there is one,
  else the first loop entry whose search finds something.\<close>

definition level_result :: "step_outputs \<Rightarrow> string option" where
  "level_result entries =
     (case last_failed entries of
        Some stepName \<Rightarrow> Some stepName
      | None \<Rightarrow> first_some (map loop_search entries))"

text \<open>
  Every record stored, at any depth, under the name of one of the given loops is a
  loop output: the run mirrors the flow, in which these names belong to loops.
\<close>

definition loops_well_typed :: "Step list \<Rightarrow> step_outputs \<Rightarrow> bool" where
  "loops_well_typed loops outputs \<longleftrightarrow>
     (\<forall>(n, r) \<in> set (all_records [outputs]). n \<in> name ` set loops \<longrightarrow> is_loop_output r)"

subsection \<open>Auxiliary notions of the proofs\<close>

text \<open>The key read from the snapshot by the pass that leads to position \<open>index\<close>:
  the loop at that position, or the child once the loops are exhausted.\<close>

definition lookup_key :: "Step list \<Rightarrow> string \<Rightarrow> nat \<Rightarrow> string" where
  "lookup_key parents childName index =
     (if index < length parents then name (parents ! index) else childName)"

text \<open>What the descent may hold between two passes: nothing, or a record stored
  under the name of one of the loops.\<close>

definition held_ok :: "Step list \<Rightarrow> step_outputs \<Rightarrow> StepOutput option \<Rightarrow> bool" where
  "held_ok parents outputs childOutput \<longleftrightarrow>
     (case childOutput of
        None \<Rightarrow> True
      | Some r \<Rightarrow> \<exists>n \<in> name ` set parents. (n, r) \<in> set (all_records [outputs]))"

text \<open>The callback of the inner reduction, named.\<close>

definition scan_entry :: "string option \<Rightarrow> string \<times> StepOutput \<Rightarrow> string option" where
  "scan_entry res entry =
     (if status (snd entry) = FAILED then Some (fst entry)
      else if is_loop_output (snd entry) \<and> loop_output (snd entry) \<noteq> None \<and> res = None
        then findFailedStepInLoop (the (loop_output (snd entry)))
      else res)"

section \<open>Sample flows and runs\<close>

text \<open>A flow \<open>trigger \<rightarrow> L1 [a \<rightarrow> L2 [s]] \<rightarrow> z\<close> with two nested loops.\<close>

definition node_L2 :: Step where
  "node_L2 = LoopOnItemsAction ''L2'' (Some (OtherStep ''s'' CODE None)) None"

definition node_L1 :: Step where
  "node_L1 =
     LoopOnItemsAction ''L1'' (Some (OtherStep ''a'' CODE (Some node_L2)))
       (Some (OtherStep ''z'' CODE None))"

definition flow_nested :: Step where
  "flow_nested = OtherStep ''trigger'' EMPTY (Some node_L1)"

definition succeeded :: "string \<Rightarrow> string \<times> StepOutput" where
  "succeeded n = (n, GenericStepOutput CODE SUCCEEDED True)"

text \<open>A run of \<open>flow_nested\<close>: one iteration of \<open>L1\<close>, three of \<open>L2\<close>, the
  step \<open>s\<close> failing in the last one.\<close>

definition run_nested :: step_outputs where
  "run_nested =
     [succeeded ''trigger'',
      (''L1'', LoopStepOutput SUCCEEDED (Some
         [[succeeded ''a'',
           (''L2'', LoopStepOutput SUCCEEDED (Some
              [[succeeded ''s''], [succeeded ''s''],
               [(''s'', GenericStepOutput CODE FAILED True)]]))]]))]"

text \<open>A run of \<open>flow_nested\<close> in which the first iteration of \<open>L1\<close> stopped after
  \<open>a\<close>: the inner loop \<open>L2\<close> has no record.\<close>

definition run_inner_idle :: step_outputs where
  "run_inner_idle =
     [succeeded ''trigger'',
      (''L1'', LoopStepOutput SUCCEEDED (Some [[succeeded ''a'']]))]"

text \<open>A flow \<open>trigger \<rightarrow> L [step]\<close> and a run of it with three iterations.\<close>

definition node_L :: Step where
  "node_L = LoopOnItemsAction ''L'' (Some (OtherStep ''step'' PIECE None)) None"

definition flow_single :: Step where
  "flow_single = OtherStep ''trigger'' EMPTY (Some node_L)"

definition run_single :: step_outputs where
  "run_single =
     [succeeded ''trigger'',
      (''L'', LoopStepOutput SUCCEEDED (Some
         [[succeeded ''step''], [succeeded ''step''], [succeeded ''step'']]))]"

text \<open>A run in which two top-level steps failed, \<open>A\<close> before \<open>B\<close>.\<close>

definition run_two_failures :: step_outputs where
  "run_two_failures =
     [(''A'', GenericStepOutput CODE FAILED True),
      (''B'', GenericStepOutput PIECE FAILED True)]"

text \<open>
  A flow \<open>trigger \<rightarrow> A \<rightarrow> B [C] \<rightarrow> D [E] \<rightarrow> F [G]\<close> with three sibling loops, and
  a run of it in which \<open>A\<close> succeeded and \<open>C\<close> failed in the third iteration
  of \<open>B\<close>.
\<close>

definition node_F :: Step where
  "node_F = LoopOnItemsAction ''F'' (Some (OtherStep ''G'' CODE None)) None"

definition node_D :: Step where
  "node_D = LoopOnItemsAction ''D'' (Some (OtherStep ''E'' CODE None)) (Some node_F)"

definition node_B :: Step where
  "node_B = LoopOnItemsAction ''B'' (Some (OtherStep ''C'' CODE None)) (Some node_D)"

definition flow_display :: FlowVersion where
  "flow_display =
     \<lparr>trigger = OtherStep ''trigger'' EMPTY (Some (OtherStep ''A'' PIECE (Some node_B)))\<rparr>"

definition steps_display :: step_outputs where
  "steps_display =
     [succeeded ''trigger'', succeeded ''A'',
      (''B'', LoopStepOutput SUCCEEDED (Some
         [[succeeded ''C''], [succeeded ''C''],
          [(''C'', GenericStepOutput CODE FAILED True)]]))]"

definition run_display :: FlowRun where
  "run_display = \<lparr>steps = Some steps_display\<rparr>"

section \<open>Status icons\<close>

text \<open>
  C8. Every step status and every run status is mapped to a result whose variant
  is one of the three severity classes \<open>default\<close> (neutral), \<open>success\<close> and
  \<open>error\<close>.
\<close>

theorem status_icon_variants:
  "variant (getStatusIconForStep stepOutput) \<in> {''default'', ''success'', ''error''}
   \<and> variant (getStatusIcon st) \<in> {''default'', ''success'', ''error''}"
  by (cases stepOutput; cases st; simp)

section \<open>Output locator: the direct and the not-found paths\<close>

text \<open>
  C6. A step name that is a key of the run's output mapping yields exactly the
  stored record, whatever the loop indexes and the trigger are.
\<close>

theorem extractStepOutput_direct:
  "map_of outputs stepName = Some stepOutput \<Longrightarrow>
   extractStepOutput stepName loopIndexes outputs trig = Inr (Some stepOutput)"
  by (simp add: extractStepOutput_def)

theorem extractStepOutput_direct_witness:
  "map_of run_single ''L'' = Some (LoopStepOutput SUCCEEDED (Some
       [[succeeded ''step''], [succeeded ''step''], [succeeded ''step'']]))
   \<and> extractStepOutput ''L'' [''L'' \<mapsto> 7] run_single flow_single = Inr (Some (LoopStepOutput SUCCEEDED (Some
       [[succeeded ''step''], [succeeded ''step''], [succeeded ''step'']])))"
proof -
  have h: "map_of run_single ''L'' = Some (LoopStepOutput SUCCEEDED (Some
       [[succeeded ''step''], [succeeded ''step''], [succeeded ''step'']]))"
    by (simp add: run_single_def succeeded_def)
  from h extractStepOutput_direct [OF h] show ?thesis ..
qed

text \<open>
  C7. When the step name is not a key of the run's output mapping and the path
  resolver reports that the step is nowhere in the flow tree, the result is
  undefined, and no error is raised.
\<close>

theorem extractStepOutput_not_found:
  "map_of outputs stepName = None \<Longrightarrow> findPathToStep trig stepName = None \<Longrightarrow>
   extractStepOutput stepName loopIndexes outputs trig = Inr None"
  by (simp add: extractStepOutput_def)

theorem extractStepOutput_not_found_witness:
  "map_of run_single ''ghost'' = None \<and> findPathToStep flow_single ''ghost'' = None
   \<and> extractStepOutput ''ghost'' [''L'' \<mapsto> 1] run_single flow_single = Inr None"
proof -
  have h1: "map_of run_single ''ghost'' = None"
    by (simp add: run_single_def succeeded_def)
  have h2: "findPathToStep flow_single ''ghost'' = None"
    by (simp add: flow_single_def node_L_def)
  from h1 h2 extractStepOutput_not_found [OF h1 h2] show ?thesis by simp
qed

text \<open>
  C9. When the step name is not a key of the run's output mapping and the path
  resolver returns a path without any loop node, the descent helper receives an
  empty list of loops and the result is undefined, without an error.
\<close>

theorem extractStepOutput_no_loop_ancestor:
  "map_of outputs stepName = None \<Longrightarrow> findPathToStep trig stepName = Some parents \<Longrightarrow>
   filter is_loop parents = [] \<Longrightarrow>
   extractStepOutput stepName loopIndexes outputs trig = Inr None"
  by (simp add: extractStepOutput_def getLoopChildStepOutput_def)

theorem extractStepOutput_no_loop_ancestor_witness:
  "map_of run_nested ''z'' = None \<and> findPathToStep flow_nested ''z'' = Some []
   \<and> filter is_loop ([] :: Step list) = []
   \<and> extractStepOutput ''z'' [''L1'' \<mapsto> 0] run_nested flow_nested = Inr None"
proof -
  have h1: "map_of run_nested ''z'' = None"
    by (simp add: run_nested_def succeeded_def)
  have h2: "findPathToStep flow_nested ''z'' = Some []"
    by (simp add: flow_nested_def node_L1_def node_L2_def)
  have h3: "filter is_loop ([] :: Step list) = []"
    by simp
  from h1 h2 h3 extractStepOutput_no_loop_ancestor [OF h1 h2 h3] show ?thesis by simp
qed

section \<open>Output locator: the descent through the loops\<close>

subsection \<open>The loop, pass by pass\<close>

lemma while_loop_step:
  "index < length parents \<Longrightarrow>
   while_loop parents loopIndexes childName index childOutput =
     (case loop_body parents loopIndexes childName index childOutput of
        Inl e \<Rightarrow> Inl e
      | Inr childOutput' \<Rightarrow> while_loop parents loopIndexes childName (index + 1) childOutput')"
  by (subst while_loop.simps) simp

lemma while_loop_exit:
  "length parents \<le> index \<Longrightarrow>
   while_loop parents loopIndexes childName index childOutput = Inr childOutput"
  by (subst while_loop.simps) simp

lemma while_loop_None:
  "while_loop parents loopIndexes childName i None = Inr None"
proof (induction "length parents - i" arbitrary: i)
  case 0
  then show ?case by (simp add: while_loop_exit)
next
  case (Suc d)
  then have "i < length parents" and "d = length parents - Suc i" by simp_all
  with Suc.hyps(1) [of "Suc i"] show ?case
    by (simp add: while_loop_step loop_body_def)
qed

lemma loop_body_advance:
  assumes "childOutput = Some (LoopStepOutput st (Some iterations))"
    and "iteration_at iterations (loopIndexes (name (parents ! index))) = Some snapshot"
  shows "loop_body parents loopIndexes childName index childOutput =
           Inr (map_of snapshot (lookup_key parents childName (index + 1)))"
  using assms by (simp add: loop_body_def lookup_key_def)

lemma loop_body_stay:
  assumes "childOutput = Some (LoopStepOutput st (Some iterations))"
    and "iteration_at iterations (loopIndexes (name (parents ! index))) = None"
  shows "loop_body parents loopIndexes childName index childOutput = Inr childOutput"
  using assms by (simp add: loop_body_def)

lemma iteration_at_SomeD:
  "iteration_at iterations i = Some snapshot \<Longrightarrow> snapshot \<in> set iterations"
  by (auto simp: iteration_at_def split: option.splits if_splits)

lemma snapshot_at_Cons_SomeD:
  assumes "snapshot_at (l # ls) loopIndexes m = Some snap"
  obtains st iterations snapshot where
    "map_of m l = Some (LoopStepOutput st (Some iterations))"
    "iteration_at iterations (loopIndexes l) = Some snapshot"
    "snapshot_at ls loopIndexes snapshot = Some snap"
  using assms by (auto split: option.splits StepOutput.splits)

text \<open>
  If the snapshots addressed by the \<open>k\<close> loops from position \<open>i\<close> on exist, the
  loop started at \<open>i\<close> on the record of loop \<open>i\<close> arrives at position \<open>i + k\<close>
  holding what the last of these snapshots stores under the next key.
\<close>

lemma while_loop_descends:
  assumes "snapshot_at (map name (take k (drop i parents))) loopIndexes m = Some snap"
    and "i + k \<le> length parents"
  shows "while_loop parents loopIndexes childName i (map_of m (lookup_key parents childName i)) =
         while_loop parents loopIndexes childName (i + k)
           (map_of snap (lookup_key parents childName (i + k)))"
  using assms
proof (induction k arbitrary: i m)
  case 0
  then show ?case by simp
next
  case (Suc k)
  then have i: "i < length parents" by simp
  then have "take (Suc k) (drop i parents) = parents ! i # take k (drop (Suc i) parents)"
    by (simp add: Cons_nth_drop_Suc [symmetric])
  with Suc.prems(1) have
    "snapshot_at (name (parents ! i) # map name (take k (drop (Suc i) parents))) loopIndexes m
       = Some snap"
    by simp
  then obtain st iterations snapshot where
    rec: "map_of m (name (parents ! i)) = Some (LoopStepOutput st (Some iterations))"
    and it: "iteration_at iterations (loopIndexes (name (parents ! i))) = Some snapshot"
    and rest: "snapshot_at (map name (take k (drop (Suc i) parents))) loopIndexes snapshot
                 = Some snap"
    by (rule snapshot_at_Cons_SomeD)
  from i rec have key:
    "map_of m (lookup_key parents childName i) = Some (LoopStepOutput st (Some iterations))"
    by (simp add: lookup_key_def)
  have "while_loop parents loopIndexes childName i (map_of m (lookup_key parents childName i)) =
        while_loop parents loopIndexes childName (Suc i)
          (map_of snapshot (lookup_key parents childName (Suc i)))"
    using i loop_body_advance [where loopIndexes = loopIndexes and parents = parents
        and index = i and childName = childName, OF key it]
    by (simp add: while_loop_step)
  also have "\<dots> = while_loop parents loopIndexes childName (Suc i + k)
          (map_of snap (lookup_key parents childName (Suc i + k)))"
    using Suc.prems(2) by (intro Suc.IH [OF rest]) simp
  finally show ?case by simp
qed

subsection \<open>Recorded entries\<close>

lemma in_all_records_iff:
  "e \<in> set (all_records iterations) \<longleftrightarrow>
     (\<exists>iteration \<in> set iterations. \<exists>(stepName, step) \<in> set iteration.
        e = (stepName, step) \<or>
        (is_loop_output step \<and> loop_output step \<noteq> None
           \<and> e \<in> set (all_records (the (loop_output step)))))"
  by (subst all_records.simps) (force split: if_splits)

lemma all_records_top:
  "iteration \<in> set iterations \<Longrightarrow> e \<in> set iteration \<Longrightarrow> e \<in> set (all_records iterations)"
  by (subst in_all_records_iff) (cases e, auto)

lemma all_records_inside:
  assumes "iteration \<in> set iterations" and "(stepName, step) \<in> set iteration"
    and "is_loop_output step" and "loop_output step \<noteq> None"
    and "e \<in> set (all_records (the (loop_output step)))"
  shows "e \<in> set (all_records iterations)"
  using assms by (subst in_all_records_iff) blast

lemma all_records_nested:
  assumes "(l, LoopStepOutput st (Some its)) \<in> set (all_records iterations)"
    and "e \<in> set (all_records its)"
  shows "e \<in> set (all_records iterations)"
  using assms
proof (induction iterations rule: all_records.induct)
  case (1 iterations)
  from "1.prems"(1) obtain iteration stepName step where
    mem: "iteration \<in> set iterations" "(stepName, step) \<in> set iteration"
    and cases: "(l, LoopStepOutput st (Some its)) = (stepName, step) \<or>
        (is_loop_output step \<and> loop_output step \<noteq> None
           \<and> (l, LoopStepOutput st (Some its)) \<in> set (all_records (the (loop_output step))))"
    by (subst (asm) in_all_records_iff) auto
  from cases have "is_loop_output step \<and> loop_output step \<noteq> None
      \<and> e \<in> set (all_records (the (loop_output step)))"
  proof
    assume "(l, LoopStepOutput st (Some its)) = (stepName, step)"
    with "1.prems"(2) show ?thesis by auto
  next
    assume "is_loop_output step \<and> loop_output step \<noteq> None
           \<and> (l, LoopStepOutput st (Some its)) \<in> set (all_records (the (loop_output step)))"
    with "1.IH" [OF mem(1) mem(2) refl] "1.prems"(2) show ?thesis by blast
  qed
  with mem show ?case
    by (subst in_all_records_iff) blast
qed

subsection \<open>No error on well-typed runs\<close>

lemma while_loop_no_throw:
  assumes wf: "loops_well_typed parents outputs"
    and inv: "held_ok parents outputs childOutput"
  shows "\<exists>res. while_loop parents loopIndexes childName i childOutput = Inr res"
  using inv
proof (induction "length parents - i" arbitrary: i childOutput)
  case 0
  then show ?case by (simp add: while_loop_exit)
next
  case (Suc d)
  then have i: "i < length parents" by simp
  have "\<exists>co. loop_body parents loopIndexes childName i childOutput = Inr co
          \<and> (Suc i < length parents \<longrightarrow> held_ok parents outputs co)"
  proof (cases childOutput)
    case None
    then show ?thesis by (simp add: loop_body_def held_ok_def)
  next
    case (Some r)
    with Suc.prems obtain n where
      n: "n \<in> name ` set parents" "(n, r) \<in> set (all_records [outputs])"
      by (auto simp: held_ok_def)
    with wf have "is_loop_output r" unfolding loops_well_typed_def by blast
    then obtain st out where r: "r = LoopStepOutput st out" by (cases r) auto
    show ?thesis
    proof (cases out)
      case None
      with Some r Suc.prems show ?thesis by (simp add: loop_body_def)
    next
      case out: (Some iterations)
      show ?thesis
      proof (cases "iteration_at iterations (loopIndexes (name (parents ! i)))")
        case None
        with Some r out Suc.prems show ?thesis by (simp add: loop_body_def)
      next
        case snap: (Some snapshot)
        have body: "loop_body parents loopIndexes childName i childOutput =
            Inr (map_of snapshot (lookup_key parents childName (i + 1)))"
          using Some r out snap by (intro loop_body_advance) simp_all
        have "held_ok parents outputs (map_of snapshot (lookup_key parents childName (i + 1)))"
          if "Suc i < length parents"
        proof (cases "map_of snapshot (lookup_key parents childName (i + 1))")
          case None
          then show ?thesis by (simp add: held_ok_def)
        next
          case (Some r')
          then have "(lookup_key parents childName (i + 1), r') \<in> set snapshot"
            by (rule map_of_SomeD)
          with iteration_at_SomeD [OF snap]
          have "(lookup_key parents childName (i + 1), r') \<in> set (all_records iterations)"
            by (rule all_records_top)
          with n(2) have
            "(lookup_key parents childName (i + 1), r') \<in> set (all_records [outputs])"
            unfolding r out by (rule all_records_nested)
          moreover have "lookup_key parents childName (i + 1) \<in> name ` set parents"
            using that by (simp add: lookup_key_def)
          ultimately show ?thesis using Some by (auto simp: held_ok_def)
        qed
        with body show ?thesis by simp
      qed
    qed
  qed
  then obtain co where co: "loop_body parents loopIndexes childName i childOutput = Inr co"
    and ok: "Suc i < length parents \<longrightarrow> held_ok parents outputs co" by blast
  show ?case
  proof (cases "Suc i < length parents")
    case True
    with ok have "held_ok parents outputs co" by simp
    moreover from Suc.hyps(2) have "d = length parents - Suc i" by simp
    ultimately have "\<exists>res. while_loop parents loopIndexes childName (Suc i) co = Inr res"
      by (rule Suc.hyps(1) [rotated])
    with i co show ?thesis by (simp add: while_loop_step)
  next
    case False
    with i co show ?thesis by (simp add: while_loop_step while_loop_exit)
  qed
qed

text \<open>
  The well-typedness is needed: the cast in \<^verbatim>\<open>getLoopChildStepOutput\<close> is not
  checked, and a record of another type with a truthy output under the name of the
  loop makes the descent raise.
\<close>

lemma extractStepOutput_cast_raises:
  "extractStepOutput ''step'' [''L'' \<mapsto> 0]
     [(''L'', GenericStepOutput CODE SUCCEEDED True)] flow_single = Inl TypeError"
  by (simp add: extractStepOutput_def getLoopChildStepOutput_def flow_single_def node_L_def
      while_loop.simps loop_body_def)

subsection \<open>The addressed record\<close>

text \<open>
  C1. Let the step be absent from the run's output mapping and nested under the
  loops \<open>L1, \<dots>, Lk\<close> that the path resolver returns (in root-to-target order,
  \<open>k > 0\<close>). If every addressed iteration snapshot exists at the caller-supplied
  indexes, that is, the descent
  \<open>runSteps[L1].output.iterations[loopIndexes[L1]][L2] \<dots> .iterations[loopIndexes[Lk]]\<close>
  reaches a snapshot, then \<open>extractStepOutput\<close> returns what this snapshot stores
  under the step name. The witness is the two-level nesting \<open>L1 \<rightarrow> L2 \<rightarrow> s\<close> with
  the indexes \<open>{L1: 0, L2: 2}\<close>.
\<close>

theorem extractStepOutput_descends:
  assumes "map_of outputs stepName = None"
    and "findPathToStep trig stepName = Some parents"
    and "filter is_loop parents \<noteq> []"
    and "snapshot_at (map name (filter is_loop parents)) loopIndexes outputs = Some snapshot"
  shows "extractStepOutput stepName loopIndexes outputs trig = Inr (map_of snapshot stepName)"
proof -
  let ?ps = "filter is_loop parents"
  have "while_loop ?ps loopIndexes stepName 0 (map_of outputs (lookup_key ?ps stepName 0)) =
        while_loop ?ps loopIndexes stepName (0 + length ?ps)
          (map_of snapshot (lookup_key ?ps stepName (0 + length ?ps)))"
    using assms(4) by (intro while_loop_descends) simp_all
  moreover have "lookup_key ?ps stepName 0 = name (?ps ! 0)"
    using assms(3) by (simp add: lookup_key_def)
  moreover have "lookup_key ?ps stepName (length ?ps) = stepName"
    by (simp add: lookup_key_def)
  ultimately have "while_loop ?ps loopIndexes stepName 0 (map_of outputs (name (?ps ! 0))) =
        Inr (map_of snapshot stepName)"
    by (simp add: while_loop_exit)
  with assms(1-3) show ?thesis
    by (simp add: extractStepOutput_def getLoopChildStepOutput_def)
qed

theorem extractStepOutput_descends_witness:
  "map_of run_nested ''s'' = None
   \<and> findPathToStep flow_nested ''s'' = Some [node_L1, node_L2]
   \<and> filter is_loop [node_L1, node_L2] \<noteq> []
   \<and> snapshot_at (map name (filter is_loop [node_L1, node_L2])) [''L1'' \<mapsto> 0, ''L2'' \<mapsto> 2]
        run_nested = Some [(''s'', GenericStepOutput CODE FAILED True)]
   \<and> extractStepOutput ''s'' [''L1'' \<mapsto> 0, ''L2'' \<mapsto> 2] run_nested flow_nested =
        Inr (map_of [(''s'', GenericStepOutput CODE FAILED True)] ''s'')"
proof -
  have h1: "map_of run_nested ''s'' = None"
    by (simp add: run_nested_def succeeded_def)
  have h2: "findPathToStep flow_nested ''s'' = Some [node_L1, node_L2]"
    by (simp add: flow_nested_def node_L1_def node_L2_def)
  have h3: "filter is_loop [node_L1, node_L2] \<noteq> []"
    by (simp add: node_L1_def)
  have h4: "snapshot_at (map name (filter is_loop [node_L1, node_L2]))
      [''L1'' \<mapsto> 0, ''L2'' \<mapsto> 2] run_nested = Some [(''s'', GenericStepOutput CODE FAILED True)]"
    by (simp add: node_L1_def node_L2_def run_nested_def succeeded_def iteration_at_def)
  from h1 h2 h3 h4 extractStepOutput_descends [OF h1 h2 h3 h4] show ?thesis by blast
qed

subsection \<open>Missing iterations\<close>

text \<open>
  What the descent does on a missing link, for a step that is absent from the run's
  output mapping and nested under at least one loop:
  \<^item> no error is raised when every record stored under the name of an enclosing loop
    is a loop output;
  \<^item> the result is undefined when an enclosing loop never executed: its record is
    missing from the run, or from the snapshot addressed through the loops above it;
  \<^item> when the snapshots of the outer loops exist and the record of the innermost
    loop is there, but its iteration index is out of range or absent from
    \<open>loopIndexes\<close>, the pass that finds no snapshot leaves \<open>childOutput\<close> as it
    is, and the stale record of that loop is returned in place of the child's.
\<close>

lemma getLoopChildStepOutput_missing_link:
  assumes "map_of outputs stepName = None"
    and "findPathToStep trig stepName = Some parents"
    and "filter is_loop parents = loops"
    and "loops \<noteq> []"
  shows "(loops_well_typed loops outputs \<longrightarrow>
            (\<exists>res. extractStepOutput stepName loopIndexes outputs trig = Inr res))
     \<and> (\<forall>j snapshot.
            j < length loops
            \<and> snapshot_at (map name (take j loops)) loopIndexes outputs = Some snapshot
            \<and> map_of snapshot (name (loops ! j)) = None
            \<longrightarrow> extractStepOutput stepName loopIndexes outputs trig = Inr None)
     \<and> (\<forall>snapshot st iterations.
            snapshot_at (map name (butlast loops)) loopIndexes outputs = Some snapshot
            \<and> map_of snapshot (name (last loops)) = Some (LoopStepOutput st (Some iterations))
            \<and> iteration_at iterations (loopIndexes (name (last loops))) = None
            \<longrightarrow> extractStepOutput stepName loopIndexes outputs trig =
                  Inr (Some (LoopStepOutput st (Some iterations))))"
proof -
  have run: "extractStepOutput stepName loopIndexes outputs trig =
      while_loop loops loopIndexes stepName 0 (map_of outputs (name (loops ! 0)))"
    using assms by (simp add: extractStepOutput_def getLoopChildStepOutput_def)
  have key0: "lookup_key loops stepName 0 = name (loops ! 0)"
    using assms(4) by (simp add: lookup_key_def)
  have "\<exists>res. while_loop loops loopIndexes stepName 0 (map_of outputs (name (loops ! 0))) = Inr res"
    if wf: "loops_well_typed loops outputs"
  proof -
    have "held_ok loops outputs (map_of outputs (name (loops ! 0)))"
    proof (cases "map_of outputs (name (loops ! 0))")
      case None
      then show ?thesis by (simp add: held_ok_def)
    next
      case (Some r)
      then have "(name (loops ! 0), r) \<in> set outputs" by (rule map_of_SomeD)
      then have "(name (loops ! 0), r) \<in> set (all_records [outputs])"
        by (intro all_records_top [of outputs]) simp_all
      moreover have "name (loops ! 0) \<in> name ` set loops"
        using assms(4) by simp
      ultimately show ?thesis using Some by (auto simp: held_ok_def)
    qed
    with wf show ?thesis by (rule while_loop_no_throw)
  qed
  moreover have "while_loop loops loopIndexes stepName 0 (map_of outputs (name (loops ! 0))) = Inr None"
    if j: "j < length loops"
      and snap: "snapshot_at (map name (take j loops)) loopIndexes outputs = Some snapshot"
      and none: "map_of snapshot (name (loops ! j)) = None"
    for j snapshot
  proof -
    have "snapshot_at (map name (take j (drop 0 loops))) loopIndexes outputs = Some snapshot"
      using snap by simp
    then have "while_loop loops loopIndexes stepName 0
          (map_of outputs (lookup_key loops stepName 0)) =
        while_loop loops loopIndexes stepName (0 + j)
          (map_of snapshot (lookup_key loops stepName (0 + j)))"
      using j by (intro while_loop_descends) simp_all
    moreover have "lookup_key loops stepName j = name (loops ! j)"
      using j by (simp add: lookup_key_def)
    ultimately show ?thesis
      by (simp add: key0 none while_loop_None)
  qed
  moreover have "while_loop loops loopIndexes stepName 0 (map_of outputs (name (loops ! 0))) =
      Inr (Some (LoopStepOutput st (Some iterations)))"
    if snap: "snapshot_at (map name (butlast loops)) loopIndexes outputs = Some snapshot"
      and rec: "map_of snapshot (name (last loops)) = Some (LoopStepOutput st (Some iterations))"
      and miss: "iteration_at iterations (loopIndexes (name (last loops))) = None"
    for snapshot st iterations
  proof -
    define k where "k = length loops - 1"
    from assms(4) have k: "k < length loops" and Suc_k: "Suc k = length loops"
      by (simp_all add: k_def)
    have at_k: "name (loops ! k) = name (last loops)"
      using assms(4) by (simp add: last_conv_nth k_def)
    have keyk: "lookup_key loops stepName k = name (last loops)"
      using k by (simp add: lookup_key_def at_k)
    have "snapshot_at (map name (take k (drop 0 loops))) loopIndexes outputs = Some snapshot"
      using snap by (simp add: butlast_conv_take k_def)
    then have "while_loop loops loopIndexes stepName 0
          (map_of outputs (lookup_key loops stepName 0)) =
        while_loop loops loopIndexes stepName (0 + k)
          (map_of snapshot (lookup_key loops stepName (0 + k)))"
      using k by (intro while_loop_descends) simp_all
    then have "while_loop loops loopIndexes stepName 0 (map_of outputs (name (loops ! 0))) =
        while_loop loops loopIndexes stepName k (Some (LoopStepOutput st (Some iterations)))"
      by (simp add: key0 keyk rec)
    also have "\<dots> = while_loop loops loopIndexes stepName (Suc k)
        (Some (LoopStepOutput st (Some iterations)))"
      using k loop_body_stay [where parents = loops and index = k and loopIndexes = loopIndexes
          and childName = stepName, OF refl, of iterations st] miss
      by (simp add: while_loop_step at_k)
    also have "\<dots> = Inr (Some (LoopStepOutput st (Some iterations)))"
      by (simp only: Suc_k while_loop_exit [OF order_refl])
    finally show ?thesis .
  qed
  ultimately show ?thesis unfolding run by blast
qed

lemma getLoopChildStepOutput_missing_link_example:
  "map_of run_single ''step'' = None
   \<and> findPathToStep flow_single ''step'' = Some [node_L]
   \<and> filter is_loop [node_L] = [node_L]
   \<and> loops_well_typed [node_L] run_single
   \<and> (\<exists>res. extractStepOutput ''step'' [''L'' \<mapsto> 5] run_single flow_single = Inr res)
   \<and> snapshot_at (map name (butlast [node_L])) [''L'' \<mapsto> 5] run_single = Some run_single
   \<and> map_of run_single (name (last [node_L])) = Some (LoopStepOutput SUCCEEDED (Some
        [[succeeded ''step''], [succeeded ''step''], [succeeded ''step'']]))
   \<and> iteration_at [[succeeded ''step''], [succeeded ''step''], [succeeded ''step'']]
        ([''L'' \<mapsto> 5] (name (last [node_L]))) = None
   \<and> extractStepOutput ''step'' [''L'' \<mapsto> 5] run_single flow_single =
        Inr (Some (LoopStepOutput SUCCEEDED (Some
          [[succeeded ''step''], [succeeded ''step''], [succeeded ''step'']])))
   \<and> map_of run_inner_idle ''s'' = None
   \<and> findPathToStep flow_nested ''s'' = Some [node_L1, node_L2]
   \<and> filter is_loop [node_L1, node_L2] = [node_L1, node_L2]
   \<and> snapshot_at (map name (take 1 [node_L1, node_L2])) [''L1'' \<mapsto> 0, ''L2'' \<mapsto> 0]
        run_inner_idle = Some [succeeded ''a'']
   \<and> map_of [succeeded ''a''] (name ([node_L1, node_L2] ! 1)) = None
   \<and> extractStepOutput ''s'' [''L1'' \<mapsto> 0, ''L2'' \<mapsto> 0] run_inner_idle flow_nested = Inr None"
proof -
  let ?li = "[''L'' \<mapsto> (5::int)]"
  let ?its = "[[succeeded ''step''], [succeeded ''step''], [succeeded ''step'']]"
  have h1: "map_of run_single ''step'' = None"
    by (simp add: run_single_def succeeded_def)
  have h2: "findPathToStep flow_single ''step'' = Some [node_L]"
    by (simp add: flow_single_def node_L_def)
  have h3: "filter is_loop [node_L] = [node_L]"
    by (simp add: node_L_def)
  have h4: "[node_L] \<noteq> []" by simp
  have wf: "loops_well_typed [node_L] run_single"
    by (simp add: loops_well_typed_def run_single_def succeeded_def node_L_def all_records.simps)
  have snap: "snapshot_at (map name (butlast [node_L])) ?li run_single = Some run_single"
    by simp
  have rec: "map_of run_single (name (last [node_L])) = Some (LoopStepOutput SUCCEEDED (Some ?its))"
    by (simp add: run_single_def succeeded_def node_L_def)
  have miss: "iteration_at ?its (?li (name (last [node_L]))) = None"
    by (simp add: iteration_at_def node_L_def)
  note run = getLoopChildStepOutput_missing_link [OF h1 h2 h3 h4, of ?li]
  from run wf have c1: "\<exists>res. extractStepOutput ''step'' ?li run_single flow_single = Inr res"
    by blast
  from run snap rec miss
  have c3: "extractStepOutput ''step'' ?li run_single flow_single =
      Inr (Some (LoopStepOutput SUCCEEDED (Some ?its)))"
    by blast
  let ?li2 = "[''L1'' \<mapsto> (0::int), ''L2'' \<mapsto> 0]"
  have g1: "map_of run_inner_idle ''s'' = None"
    by (simp add: run_inner_idle_def succeeded_def)
  have g2: "findPathToStep flow_nested ''s'' = Some [node_L1, node_L2]"
    by (simp add: flow_nested_def node_L1_def node_L2_def)
  have g3: "filter is_loop [node_L1, node_L2] = [node_L1, node_L2]"
    by (simp add: node_L1_def node_L2_def)
  have g4: "[node_L1, node_L2] \<noteq> []" by simp
  have j: "(1::nat) < length [node_L1, node_L2]" by simp
  have inner_snap: "snapshot_at (map name (take 1 [node_L1, node_L2])) ?li2 run_inner_idle
      = Some [succeeded ''a'']"
    by (simp add: node_L1_def run_inner_idle_def succeeded_def iteration_at_def)
  have inner_none: "map_of [succeeded ''a''] (name ([node_L1, node_L2] ! 1)) = None"
    by (simp add: node_L2_def succeeded_def)
  note inner_run = getLoopChildStepOutput_missing_link [OF g1 g2 g3 g4, of ?li2]
  from inner_run j inner_snap inner_none
  have c2: "extractStepOutput ''s'' ?li2 run_inner_idle flow_nested = Inr None"
    by blast
  from h1 h2 h3 wf c1 snap rec miss c3 g1 g2 g3 inner_snap inner_none c2 show ?thesis by blast
qed

text \<open>
  C2. For a step nested in a loop and absent from the run's output mapping, an
  iteration index that is out of range of the loop's recorded iterations has to
  yield an absent result. The code does not: \<^verbatim>\<open>getLoopChildStepOutput\<close> has no
  branch for the missing snapshot, keeps the record of the loop in \<open>childOutput\<close>
  and returns it as if it were the child's output, whereas its other missing-link
  paths (no record of the loop, no entry of the child in the snapshot, no loop
  ancestors, no path) return undefined. For the step in one loop \<open>L\<close> with three
  recorded iterations, index 5 returns the record of \<open>L\<close>. The same happens with
  the index that \<open>findLoopsState\<close> itself assigns: for the failed step \<open>C\<close> of
  loop \<open>B\<close> and \<open>B\<close> at \<open>MAX_SAFE_INTEGER\<close>, the record of \<open>B\<close> is
  returned; and with the outer index absent, \<open>{L2: 2}\<close>, the record of the outer
  loop \<open>L1\<close> is returned for the step \<open>s\<close> of the inner loop.
\<close>

theorem extractStepOutput_out_of_range_divergence:
  "map_of run_single ''step'' = None
   \<and> findPathToStep flow_single ''step'' = Some [node_L]
   \<and> map_of run_single ''L'' = Some (LoopStepOutput SUCCEEDED (Some
        [[succeeded ''step''], [succeeded ''step''], [succeeded ''step'']]))
   \<and> extractStepOutput ''step'' [''L'' \<mapsto> 5] run_single flow_single =
        Inr (Some (LoopStepOutput SUCCEEDED (Some
          [[succeeded ''step''], [succeeded ''step''], [succeeded ''step'']])))
   \<and> extractStepOutput ''step'' [''L'' \<mapsto> 5] run_single flow_single \<noteq> Inr None
   \<and> extractStepOutput ''C'' [''B'' \<mapsto> MAX_SAFE_INTEGER] steps_display (trigger flow_display) =
        Inr (map_of steps_display ''B'')
   \<and> map_of steps_display ''B'' \<noteq> None
   \<and> extractStepOutput ''s'' [''L2'' \<mapsto> 2] run_nested flow_nested =
        Inr (map_of run_nested ''L1'')
   \<and> map_of run_nested ''L1'' \<noteq> None"
  by (simp add: run_single_def flow_single_def node_L_def succeeded_def extractStepOutput_def
      getLoopChildStepOutput_def while_loop.simps loop_body_def iteration_at_def
      steps_display_def flow_display_def node_B_def node_D_def node_F_def MAX_SAFE_INTEGER_def
      run_nested_def flow_nested_def node_L1_def node_L2_def)

section \<open>Failure finder: which step wins\<close>

subsection \<open>The reductions in closed form\<close>

lemma scan_entry_eq:
  "(\<lambda>res (stepName, step).
      if status step = FAILED then Some stepName
      else if is_loop_output step \<and> loop_output step \<noteq> None \<and> res = None
        then findFailedStepInLoop (the (loop_output step))
      else res) = scan_entry"
  by (auto simp: fun_eq_iff scan_entry_def)

lemma scan_entry_failed:
  "status (snd e) = FAILED \<Longrightarrow> scan_entry acc e = Some (fst e)"
  by (simp add: scan_entry_def)

lemma scan_entry_other:
  "status (snd e) \<noteq> FAILED \<Longrightarrow>
   scan_entry acc e = (case acc of Some a \<Rightarrow> Some a | None \<Rightarrow> loop_search e)"
  by (cases acc) (auto simp: scan_entry_def loop_search_def)

lemma last_failed_Nil: "last_failed [] = None"
  by (simp add: last_failed_def)

lemma last_failed_Cons:
  "last_failed (e # es) =
     (case last_failed es of
        Some n \<Rightarrow> Some n
      | None \<Rightarrow> if status (snd e) = FAILED then Some (fst e) else None)"
  by (cases e) (auto simp: last_failed_def split: list.splits)

lemma foldl_scan_entry:
  "foldl scan_entry acc entries =
     (case last_failed entries of
        Some n \<Rightarrow> Some n
      | None \<Rightarrow> (case acc of Some a \<Rightarrow> Some a | None \<Rightarrow> first_some (map loop_search entries)))"
proof (induction entries arbitrary: acc)
  case Nil
  then show ?case by (simp add: last_failed_Nil split: option.splits)
next
  case (Cons e entries)
  show ?case
  proof (cases "status (snd e) = FAILED")
    case True
    then show ?thesis
      by (simp add: Cons.IH last_failed_Cons scan_entry_failed split: option.splits)
  next
    case False
    then show ?thesis
      by (cases "loop_search e"; cases acc)
         (simp_all add: Cons.IH last_failed_Cons scan_entry_other split: option.splits)
  qed
qed

lemma foldl_keep_first:
  "foldl (\<lambda>res x. case res of Some r \<Rightarrow> Some r | None \<Rightarrow> f x) acc xs =
     (case acc of Some r \<Rightarrow> Some r | None \<Rightarrow> first_some (map f xs))"
proof (induction xs arbitrary: acc)
  case Nil
  then show ?case by (simp split: option.splits)
next
  case (Cons x xs)
  then show ?case by (cases acc; cases "f x") simp_all
qed

lemma scan_level: "foldl scan_entry None entries = level_result entries"
  by (simp add: foldl_scan_entry level_result_def split: option.splits)

lemma findFailedStepInLoop_closed:
  "findFailedStepInLoop iterations = first_some (map level_result iterations)"
  by (subst findFailedStepInLoop.simps)
     (simp add: scan_entry_eq scan_level foldl_keep_first Let_def)

lemma findFailedStep_closed:
  "findFailedStep \<lparr>steps = Some entries\<rparr> = Inr (level_result entries)"
  by (simp add: findFailedStep_def scan_entry_eq scan_level)

text \<open>
  C3, as the code has it. The scan does not stop at the first failing step: an
  entry whose own status is FAILED always replaces the result found so far, so on
  each level (the run's entries, or one iteration snapshot) the last entry that
  failed itself wins; only when no entry of the level failed itself does the first
  loop entry whose search finds something win, a loop being searched only while
  nothing has been found among its earlier siblings. Across the iterations of a
  loop the first iteration with a result wins and is never replaced.
\<close>

theorem findFailedStep_precedence:
  "findFailedStep \<lparr>steps = Some entries\<rparr> = Inr (level_result entries)
   \<and> findFailedStepInLoop iterations = first_some (map level_result iterations)"
  using findFailedStep_closed findFailedStepInLoop_closed by simp

theorem findFailedStep_precedence_witness:
  "findFailedStep \<lparr>steps = Some steps_display\<rparr> = Inr (level_result steps_display)
   \<and> level_result steps_display = Some ''C''"
proof -
  have "level_result steps_display = Some ''C''"
    by (simp add: level_result_def last_failed_def loop_search_def steps_display_def
        succeeded_def findFailedStepInLoop.simps)
  with findFailedStep_precedence [of steps_display "[]"] show ?thesis by simp
qed

text \<open>
  The claim as stated fails when two steps of one level failed: the first failing
  entry in mapping order is \<open>A\<close>, the result is \<open>B\<close>.
\<close>

theorem findFailedStep_first_wins_counterexample:
  "fst (hd (filter (\<lambda>(stepName, step). status step = FAILED) run_two_failures)) = ''A''
   \<and> findFailedStep \<lparr>steps = Some run_two_failures\<rparr> = Inr (Some ''B'')
   \<and> findFailedStep \<lparr>steps = Some run_two_failures\<rparr> \<noteq> Inr (Some ''A'')"
  by (simp add: run_two_failures_def findFailedStep_def)

section \<open>Failure finder: null exactly when nothing failed\<close>

lemma first_some_None_iff: "first_some xs = None \<longleftrightarrow> (\<forall>x \<in> set xs. x = None)"
  by (induction xs rule: first_some.induct) auto

lemma first_some_SomeD: "first_some xs = Some v \<Longrightarrow> Some v \<in> set xs"
  by (induction xs rule: first_some.induct) auto

lemma last_failed_None_iff:
  "last_failed entries = None \<longleftrightarrow> (\<forall>(n, s) \<in> set entries. status s \<noteq> FAILED)"
  by (induction entries) (auto simp: last_failed_Nil last_failed_Cons split: option.splits)

lemma last_failed_SomeD:
  "last_failed entries = Some n \<Longrightarrow> \<exists>s. (n, s) \<in> set entries \<and> status s = FAILED"
  by (induction entries)
     (auto simp: last_failed_Nil last_failed_Cons split: option.splits if_splits)

lemma level_result_None_iff:
  "level_result entries = None \<longleftrightarrow>
     (\<forall>(n, s) \<in> set entries. status s \<noteq> FAILED) \<and> (\<forall>e \<in> set entries. loop_search e = None)"
proof (cases "last_failed entries")
  case None
  then show ?thesis
    using last_failed_None_iff [of entries]
    by (simp add: level_result_def first_some_None_iff)
next
  case (Some n)
  then show ?thesis
    using last_failed_None_iff [of entries]
    by (simp add: level_result_def)
qed

lemma level_result_SomeD:
  assumes "level_result entries = Some x"
  shows "(\<exists>s. (x, s) \<in> set entries \<and> status s = FAILED)
       \<or> ((\<forall>(n, s) \<in> set entries. status s \<noteq> FAILED)
            \<and> (\<exists>e \<in> set entries. loop_search e = Some x))"
proof (cases "last_failed entries")
  case None
  with assms have "first_some (map loop_search entries) = Some x"
    by (simp add: level_result_def)
  then have "Some x \<in> set (map loop_search entries)" by (rule first_some_SomeD)
  with None show ?thesis by (auto simp: last_failed_None_iff)
next
  case (Some n)
  with assms have "n = x" by (simp add: level_result_def)
  with Some last_failed_SomeD show ?thesis by blast
qed

lemma findFailedStepInLoop_sound_complete:
  "(findFailedStepInLoop iterations = None \<longleftrightarrow>
      (\<forall>(n, r) \<in> set (all_records iterations). status r \<noteq> FAILED))
   \<and> (\<forall>x. findFailedStepInLoop iterations = Some x \<longrightarrow>
        (\<exists>r. (x, r) \<in> set (all_records iterations) \<and> status r = FAILED))"
proof (induction iterations rule: all_records.induct)
  case (1 iterations)
  have IH: "(findFailedStepInLoop (the (loop_output step)) = None \<longleftrightarrow>
        (\<forall>(n, r) \<in> set (all_records (the (loop_output step))). status r \<noteq> FAILED))
     \<and> (\<forall>x. findFailedStepInLoop (the (loop_output step)) = Some x \<longrightarrow>
        (\<exists>r. (x, r) \<in> set (all_records (the (loop_output step))) \<and> status r = FAILED))"
    if "iteration \<in> set iterations" "(stepName, step) \<in> set iteration"
       "is_loop_output step" "loop_output step \<noteq> None" for iteration stepName step
    using "1.IH" [OF that(1) that(2) refl] that(3,4) by simp
  have none: "findFailedStepInLoop iterations = None"
    if clean: "\<forall>(n, r) \<in> set (all_records iterations). status r \<noteq> FAILED"
  proof -
    have "level_result iteration = None" if it: "iteration \<in> set iterations" for iteration
    proof -
      have "status s \<noteq> FAILED" if "(n, s) \<in> set iteration" for n s
        using clean all_records_top [OF it that] by auto
      moreover have "loop_search e = None" if e: "e \<in> set iteration" for e
      proof (cases "is_loop_output (snd e) \<and> loop_output (snd e) \<noteq> None")
        case True
        from e have e': "(fst e, snd e) \<in> set iteration" by simp
        have "\<forall>(n, r) \<in> set (all_records (the (loop_output (snd e)))). status r \<noteq> FAILED"
          using clean all_records_inside [OF it e'] True by blast
        with IH [OF it e'] True show ?thesis
          by (simp add: loop_search_def)
      next
        case False
        then show ?thesis by (auto simp: loop_search_def)
      qed
      ultimately show ?thesis by (auto simp: level_result_None_iff)
    qed
    then show ?thesis
      by (simp add: findFailedStepInLoop_closed first_some_None_iff)
  qed
  have clean: "status r \<noteq> FAILED"
    if res_none: "findFailedStepInLoop iterations = None"
      and mem: "(n, r) \<in> set (all_records iterations)" for n r
  proof -
    have lr: "level_result iteration = None" if "iteration \<in> set iterations" for iteration
      using res_none that by (simp add: findFailedStepInLoop_closed first_some_None_iff)
    from mem obtain iteration stepName step where
      it: "iteration \<in> set iterations" and e: "(stepName, step) \<in> set iteration"
      and cases: "(n, r) = (stepName, step) \<or>
        (is_loop_output step \<and> loop_output step \<noteq> None
           \<and> (n, r) \<in> set (all_records (the (loop_output step))))"
      by (subst (asm) in_all_records_iff) auto
    from lr [OF it] e have direct: "status step \<noteq> FAILED"
      and search: "loop_search (stepName, step) = None"
      by (auto simp: level_result_None_iff)
    from cases show ?thesis
    proof
      assume "(n, r) = (stepName, step)"
      with direct show ?thesis by simp
    next
      assume nested: "is_loop_output step \<and> loop_output step \<noteq> None
           \<and> (n, r) \<in> set (all_records (the (loop_output step)))"
      with search have "findFailedStepInLoop (the (loop_output step)) = None"
        by (simp add: loop_search_def)
      with IH [OF it e] nested show ?thesis by auto
    qed
  qed
  have some: "\<exists>r. (x, r) \<in> set (all_records iterations) \<and> status r = FAILED"
    if found: "findFailedStepInLoop iterations = Some x" for x
  proof -
    from found have "first_some (map level_result iterations) = Some x"
      by (simp add: findFailedStepInLoop_closed)
    then have "Some x \<in> set (map level_result iterations)"
      by (rule first_some_SomeD)
    then obtain iteration where it: "iteration \<in> set iterations"
      and lr: "level_result iteration = Some x" by auto
    from level_result_SomeD [OF lr] show ?thesis
    proof
      assume "\<exists>s. (x, s) \<in> set iteration \<and> status s = FAILED"
      with it all_records_top show ?thesis by blast
    next
      assume "(\<forall>(n, s) \<in> set iteration. status s \<noteq> FAILED)
                \<and> (\<exists>e \<in> set iteration. loop_search e = Some x)"
      then obtain e where e: "e \<in> set iteration" and ls: "loop_search e = Some x" by blast
      from e have e': "(fst e, snd e) \<in> set iteration" by simp
      from ls have loop: "is_loop_output (snd e)" "loop_output (snd e) \<noteq> None"
        and rec: "findFailedStepInLoop (the (loop_output (snd e))) = Some x"
        by (auto simp: loop_search_def split: if_splits)
      from IH [OF it e' loop] rec
      obtain r where r: "(x, r) \<in> set (all_records (the (loop_output (snd e))))"
        "status r = FAILED" by auto
      from all_records_inside [OF it e' loop r(1)] r(2) show ?thesis by blast
    qed
  qed
  from none clean some show ?case by blast
qed

text \<open>
  C4. On a run that has its steps, \<open>findFailedStep\<close> returns null exactly when no
  recorded entry, at the top level or inside any iteration snapshot at any depth,
  has the status FAILED; and a name it returns is the name of a recorded entry
  whose status is FAILED.
\<close>

theorem findFailedStep_none_iff:
  "(findFailedStep \<lparr>steps = Some entries\<rparr> = Inr None \<longleftrightarrow>
      (\<forall>(n, r) \<in> set (all_records [entries]). status r \<noteq> FAILED))
   \<and> (\<forall>x. findFailedStep \<lparr>steps = Some entries\<rparr> = Inr (Some x) \<longrightarrow>
        (\<exists>r. (x, r) \<in> set (all_records [entries]) \<and> status r = FAILED))"
proof -
  have "findFailedStepInLoop [entries] = level_result entries"
    by (cases "level_result entries") (simp_all add: findFailedStepInLoop_closed)
  with findFailedStepInLoop_sound_complete [of "[entries]"] show ?thesis
    by (simp add: findFailedStep_closed)
qed

theorem findFailedStep_none_iff_witness:
  "list_all (\<lambda>(n, r). status r \<noteq> FAILED) (all_records [run_single])
   \<and> findFailedStep \<lparr>steps = Some run_single\<rparr> = Inr None
   \<and> findFailedStep \<lparr>steps = Some steps_display\<rparr> = Inr (Some ''C'')
   \<and> (\<exists>r. (''C'', r) \<in> set (all_records [steps_display]) \<and> status r = FAILED)"
proof -
  have clean: "list_all (\<lambda>(n, r). status r \<noteq> FAILED) (all_records [run_single])"
    by (simp add: all_records.simps run_single_def succeeded_def)
  then have "\<forall>(n, r) \<in> set (all_records [run_single]). status r \<noteq> FAILED"
    by (simp add: list_all_iff)
  with findFailedStep_none_iff [of run_single]
  have c1: "findFailedStep \<lparr>steps = Some run_single\<rparr> = Inr None"
    by blast
  have failed: "findFailedStep \<lparr>steps = Some steps_display\<rparr> = Inr (Some ''C'')"
    by (simp add: findFailedStep_def steps_display_def succeeded_def findFailedStepInLoop.simps)
  with findFailedStep_none_iff [of steps_display]
  have c2: "\<exists>r. (''C'', r) \<in> set (all_records [steps_display]) \<and> status r = FAILED"
    by blast
  from clean c1 failed c2 show ?thesis by blast
qed

section \<open>Loop display state\<close>

lemma foldl_upd_other:
  "k \<notin> name ` set loops \<Longrightarrow> foldl (\<lambda>res step. res(name step \<mapsto> v step)) cur loops k = cur k"
  by (induction loops arbitrary: cur) auto



text \<open>The failed step that \<open>findLoopsState\<close> computes behind its guard.\<close>

lemma findLoopsState_fold:
  "findLoopsState flowVersion run cur =
     Inr (foldl (\<lambda>res step. res(name step \<mapsto>
            (if (case (case steps run of None \<Rightarrow> None | Some entries \<Rightarrow> level_result entries) of
                   None \<Rightarrow> False | Some f \<Rightarrow> f \<noteq> [] \<and> isChildOf step f)
             then MAX_SAFE_INTEGER
             else (case cur (name step) of Some i \<Rightarrow> i | None \<Rightarrow> 0))))
          cur (filter is_loop (getAllSteps (trigger flowVersion))))"
  by (cases "steps run")
     (simp_all add: findLoopsState_def findFailedStep_def scan_entry_eq scan_level Let_def)



text \<open>
  C10. \<open>findLoopsState\<close> returns a mapping in which every key that is not the name
  of a loop node of the flow version has the value, or the absence, that it has in
  \<open>currentLoopsState\<close>.
\<close>

theorem findLoopsState_frame:
  "\<exists>res. findLoopsState flowVersion run cur = Inr res
     \<and> (\<forall>k. k \<notin> name ` set (filter is_loop (getAllSteps (trigger flowVersion)))
            \<longrightarrow> res k = cur k)"
proof -
  define v where "v = (\<lambda>step.
      if (case (case steps run of None \<Rightarrow> None | Some entries \<Rightarrow> level_result entries) of
            None \<Rightarrow> False | Some f \<Rightarrow> f \<noteq> [] \<and> isChildOf step f)
      then MAX_SAFE_INTEGER
      else (case cur (name step) of Some i \<Rightarrow> i | None \<Rightarrow> 0))"
  let ?loops = "filter is_loop (getAllSteps (trigger flowVersion))"
  have "findLoopsState flowVersion run cur =
      Inr (foldl (\<lambda>res step. res(name step \<mapsto> v step)) cur ?loops)"
    unfolding v_def by (rule findLoopsState_fold)
  moreover have "foldl (\<lambda>res step. res(name step \<mapsto> v step)) cur ?loops k = cur k"
    if "k \<notin> name ` set ?loops" for k
    using that by (rule foldl_upd_other)
  ultimately show ?thesis by blast
qed

theorem findLoopsState_frame_witness:
  "''foo'' \<notin> name ` set (filter is_loop (getAllSteps (trigger flow_display)))
   \<and> (\<exists>res. findLoopsState flow_display run_display [''D'' \<mapsto> 3, ''foo'' \<mapsto> 7] = Inr res
          \<and> res ''foo'' = Some 7 \<and> res ''bar'' = None)"
proof -
  let ?cur = "[''D'' \<mapsto> 3, ''foo'' \<mapsto> (7::int)]"
  have loops: "filter is_loop (getAllSteps (trigger flow_display)) = [node_B, node_D, node_F]"
    by (simp add: flow_display_def node_B_def node_D_def node_F_def)
  have h: "''foo'' \<notin> name ` set (filter is_loop (getAllSteps (trigger flow_display)))"
    unfolding loops by (simp add: node_B_def node_D_def node_F_def)
  have h': "''bar'' \<notin> name ` set (filter is_loop (getAllSteps (trigger flow_display)))"
    unfolding loops by (simp add: node_B_def node_D_def node_F_def)
  from findLoopsState_frame [of flow_display run_display ?cur]
  obtain res where res: "findLoopsState flow_display run_display ?cur = Inr res"
    and frame: "\<forall>k. k \<notin> name ` set (filter is_loop (getAllSteps (trigger flow_display)))
        \<longrightarrow> res k = ?cur k"
    by blast
  from frame h h' have "res ''foo'' = Some 7 \<and> res ''bar'' = None" by simp
  with h res show ?thesis by blast
qed

end
